theory Spec2Isabelle
  imports Complex_Main "HOL-Library.Word" "HOL-Library.Log_Nat"
begin

section \<open>Exceptions of the C++ standard library\<close>

text \<open>
  The library calls made by the program can throw \<^verbatim>\<open>std::out_of_range\<close>
  (\<^verbatim>\<open>substr\<close>, \<^verbatim>\<open>compare\<close>, \<^verbatim>\<open>stoi\<close>) and \<^verbatim>\<open>std::invalid_argument\<close>
  (\<^verbatim>\<open>stoi\<close>). A function that can throw returns \<open>exn + 'a\<close>, with \<open>Inl\<close> the exception.
\<close>

datatype exn = OutOfRange | InvalidArgument

section \<open>StringUtils (string\_utils.cpp)\<close>

text \<open>
  A \<^verbatim>\<open>std::string\<close> is a sequence of bytes: \<open>string\<close>. \<^verbatim>\<open>std::toupper\<close> and
  \<^verbatim>\<open>std::tolower\<close> take the byte as an \<^verbatim>\<open>unsigned char\<close> value (0..255) and, the
  program never calling \<^verbatim>\<open>setlocale\<close>, classify it in the "C" locale: only the 26
  ASCII letters change.
\<close>

definition toupper :: "nat \<Rightarrow> nat" where
  "toupper c = (if 97 \<le> c \<and> c \<le> 122 then c - 32 else c)"

definition tolower :: "nat \<Rightarrow> nat" where
  "tolower c = (if 65 \<le> c \<and> c \<le> 90 then c + 32 else c)"

definition to_upper :: "string \<Rightarrow> string" where
  "to_upper input = map (\<lambda>c. char_of (toupper (of_char c))) input"

definition to_lower :: "string \<Rightarrow> string" where
  "to_lower input = map (\<lambda>c. char_of (tolower (of_char c))) input"

text \<open>The bytes that are ASCII letters, \<open>A\<close> to \<open>Z\<close> and \<open>a\<close> to \<open>z\<close>.\<close>

definition ascii_alphabetic :: "char \<Rightarrow> bool" where
  "ascii_alphabetic c =
     ((65 \<le> (of_char c :: nat) \<and> (of_char c :: nat) \<le> 90)
      \<or> (97 \<le> (of_char c :: nat) \<and> (of_char c :: nat) \<le> 122))"

text \<open>
  \<^verbatim>\<open>find_first_not_of\<close> and \<^verbatim>\<open>find_last_not_of\<close> return an index, or \<^verbatim>\<open>npos\<close>
  (here \<open>None\<close>) when every character of the string is in the given set.
\<close>

fun first_not_of_from :: "string \<Rightarrow> string \<Rightarrow> nat \<Rightarrow> nat option" where
  "first_not_of_from [] chars i = None"
| "first_not_of_from (c # cs) chars i =
     (if c \<in> set chars then first_not_of_from cs chars (Suc i) else Some i)"

definition find_first_not_of :: "string \<Rightarrow> string \<Rightarrow> nat option" where
  "find_first_not_of s chars = first_not_of_from s chars 0"

definition find_last_not_of :: "string \<Rightarrow> string \<Rightarrow> nat option" where
  "find_last_not_of s chars =
     (case first_not_of_from (rev s) chars 0 of
        None \<Rightarrow> None
      | Some j \<Rightarrow> Some (length s - 1 - j))"

text \<open>
  \<^verbatim>\<open>s.substr(pos, n)\<close> throws \<^verbatim>\<open>out_of_range\<close> when \<open>pos\<close> is beyond the size, and
  otherwise copies at most \<open>n\<close> bytes from \<open>pos\<close>.
\<close>

definition substr :: "string \<Rightarrow> nat \<Rightarrow> nat \<Rightarrow> exn + string" where
  "substr s pos n = (if length s < pos then Inl OutOfRange else Inr (take n (drop pos s)))"

text \<open>
  Indices are \<^verbatim>\<open>size_t\<close>, 64 bits wide, and \<^verbatim>\<open>npos\<close> is its largest value, so
  that \<^verbatim>\<open>npos - start + 1\<close> wraps around. Between two indices of the string,
  \<^verbatim>\<open>end - start + 1\<close> does not wrap, as \<open>start \<le> end\<close> there (lemma
  \<open>trim_indices\<close>).
\<close>

definition npos :: nat where
  "npos = 2 ^ 64 - 1"

definition whitespace :: string where
  "whitespace = [CHR '' '', CHR 0x09, CHR 0x0A, CHR 0x0D]"

definition trim :: "string \<Rightarrow> exn + string" where
  "trim input =
     (case find_first_not_of input whitespace of
        None \<Rightarrow> Inr []
      | Some start \<Rightarrow>
          (case find_last_not_of input whitespace of
             None \<Rightarrow> substr input start ((npos + 1 - start) mod 2 ^ 64)
           | Some end' \<Rightarrow> substr input start (end' - start + 1)))"

text \<open>
  \<^verbatim>\<open>s.compare(pos, n, t)\<close> throws \<^verbatim>\<open>out_of_range\<close> when \<open>pos\<close> is beyond the size;
  otherwise it compares the slice of at most \<open>n\<close> bytes from \<open>pos\<close> with \<open>t\<close>: the
  first differing byte decides (bytes compared as unsigned values), then the lengths.
\<close>

fun traits_compare :: "string \<Rightarrow> string \<Rightarrow> int" where
  "traits_compare (a # as) (b # bs) =
     (if (of_char a :: nat) < of_char b then -1
      else if (of_char b :: nat) < of_char a then 1
      else traits_compare as bs)"
| "traits_compare [] (b # bs) = -1"
| "traits_compare (a # as) [] = 1"
| "traits_compare [] [] = 0"

definition compare :: "string \<Rightarrow> nat \<Rightarrow> nat \<Rightarrow> string \<Rightarrow> exn + int" where
  "compare s pos n t =
     (if length s < pos then Inl OutOfRange
      else Inr (traits_compare (take n (drop pos s)) t))"

definition starts_with :: "string \<Rightarrow> string \<Rightarrow> exn + bool" where
  "starts_with str prefix =
     (if length str < length prefix then Inr False
      else map_sum id (\<lambda>r. r = 0) (compare str 0 (length prefix) prefix))"

definition ends_with :: "string \<Rightarrow> string \<Rightarrow> exn + bool" where
  "ends_with str suffix =
     (if length str < length suffix then Inr False
      else map_sum id (\<lambda>r. r = 0)
             (compare str (length str - length suffix) (length suffix) suffix))"

section \<open>Machine numbers\<close>

text \<open>
  \<^verbatim>\<open>int\<close> is 32 bits wide and \<^verbatim>\<open>long long\<close> 64 bits, both two's complement:
  comparisons read the word as a signed value (\<open>sint\<close>). The C++ standard leaves a
  signed overflow undefined; here, as on the usual hardware, the arithmetic wraps around.
\<close>

type_synonym int32 = "32 word"
type_synonym int64 = "64 word"

definition INT_MAX :: int32 where
  "INT_MAX = 2147483647"

definition INT_MIN :: int32 where
  "INT_MIN = - 2147483648"

text \<open>
  A \<^verbatim>\<open>double\<close> is an IEEE 754 binary64 number, in the default rounding mode (to
  nearest, ties to even). A finite double is modelled by its value, a rational number;
  every conversion and operation computes the exact rational result and rounds it with
  \<open>round_double\<close>. All operands of this program are at most \<open>2 ^ 64\<close> in magnitude, so
  that no operation overflows to an infinity or yields a NaN.
\<close>

type_synonym double = rat

text \<open>The integer nearest to \<open>q\<close>; of two equally near ones, the even one.\<close>

definition rne :: "rat \<Rightarrow> int" where
  "rne q =
     (let f = \<lfloor>q\<rfloor>; r = q - of_int f in
      if r < 1 / 2 then f
      else if 1 / 2 < r then f + 1
      else if even f then f else f + 1)"

text \<open>For \<open>0 < q\<close>, the exponent \<open>e\<close> with \<open>2 ^ e \<le> q < 2 ^ (e + 1)\<close>.\<close>

definition ilog2 :: "rat \<Rightarrow> int" where
  "ilog2 q = (if 1 \<le> q then bitlen \<lfloor>q\<rfloor> - 1 else - bitlen (\<lceil>1 / q\<rceil> - 1))"

text \<open>
  A binary64 number has 53 significant bits: in the binade of exponent \<open>e\<close> the
  representable numbers are the multiples of \<open>2 ^ (e - 52)\<close>; below the smallest normal
  exponent, \<open>- 1022\<close>, the spacing stays that of the subnormal numbers.
\<close>

definition ulp :: "rat \<Rightarrow> rat" where
  "ulp q = 2 powi (max (ilog2 \<bar>q\<bar>) (- 1022) - 52)"

definition round_double :: "rat \<Rightarrow> double" where
  "round_double q = (if q = 0 then 0 else of_int (rne (q / ulp q)) * ulp q)"

definition int_to_double :: "int32 \<Rightarrow> double" where
  "int_to_double x = round_double (of_int (sint x))"

definition long_long_to_double :: "int64 \<Rightarrow> double" where
  "long_long_to_double x = round_double (of_int (sint x))"

definition size_to_double :: "nat \<Rightarrow> double" where
  "size_to_double n = round_double (of_nat n)"

definition double_div :: "double \<Rightarrow> double \<Rightarrow> double" where
  "double_div a b = round_double (a / b)"

section \<open>MathUtils (math\_utils.h, math\_utils.cpp)\<close>

record Stats =
  mean :: double
  min' :: double
  max' :: double

definition add :: "int32 \<Rightarrow> int32 \<Rightarrow> int32" where
  "add a b = a + b"

definition multiply :: "int32 \<Rightarrow> int32 \<Rightarrow> int32" where
  "multiply a b = a * b"

text \<open>
  The range-for loop of \<^verbatim>\<open>compute_stats\<close>, on the state \<open>(sum_acc, minVal, maxVal)\<close>;
  \<^verbatim>\<open>sum += v\<close> sign-extends \<open>v\<close> to 64 bits.
\<close>

fun stats_loop :: "int32 list \<Rightarrow> int64 \<times> int32 \<times> int32 \<Rightarrow> int64 \<times> int32 \<times> int32" where
  "stats_loop [] st = st"
| "stats_loop (v # vs) (sum_acc, minVal, maxVal) =
     stats_loop vs
       (sum_acc + scast v,
        if sint v < sint minVal then v else minVal,
        if sint maxVal < sint v then v else maxVal)"

definition compute_stats :: "int32 list \<Rightarrow> Stats" where
  "compute_stats values =
     (if values = [] then \<lparr>mean = 0, min' = 0, max' = 0\<rparr>
      else
        let (sum_acc, minVal, maxVal) = stats_loop values (0, INT_MAX, INT_MIN) in
        \<lparr>mean = double_div (long_long_to_double sum_acc) (size_to_double (length values)),
         min' = int_to_double minVal,
         max' = int_to_double maxVal\<rparr>)"

text \<open>The \<^verbatim>\<open>for\<close> loop of \<^verbatim>\<open>is_strictly_increasing\<close>, from index \<open>i\<close>.\<close>

function increasing_loop :: "int32 list \<Rightarrow> nat \<Rightarrow> bool" where
  "increasing_loop values i =
     (if i < length values then
        (if sint (values ! i) \<le> sint (values ! (i - 1)) then False
         else increasing_loop values (i + 1))
      else True)"
  by pat_completeness auto
termination
  by (relation "measure (\<lambda>(values, i). length values - i)") auto

declare increasing_loop.simps [simp del]

definition is_strictly_increasing :: "int32 list \<Rightarrow> bool" where
  "is_strictly_increasing values =
     (if length values \<le> 1 then True else increasing_loop values 2)"

section \<open>Logger (logger.cpp)\<close>

text \<open>
  Standard output is the sequence of bytes written so far; a function that writes takes
  it and returns it extended. The build-time macro \<^verbatim>\<open>VERBOSE_LOGS\<close> is the boolean
  \<open>verbose\<close>.
\<close>

type_synonym ostream = string

definition log_with_prefix :: "string \<Rightarrow> string \<Rightarrow> ostream \<Rightarrow> ostream" where
  "log_with_prefix prefix msg out = out @ prefix @ msg @ [CHR 0x0A]"

definition log_info :: "bool \<Rightarrow> string \<Rightarrow> ostream \<Rightarrow> ostream" where
  "log_info verbose msg out =
     (if verbose then log_with_prefix ''[INFORMATION] '' msg out
      else log_with_prefix ''[INFO] '' msg out)"

definition log_warning :: "string \<Rightarrow> ostream \<Rightarrow> ostream" where
  "log_warning msg out = log_with_prefix ''[WARN] '' msg out"

definition log_error :: "string \<Rightarrow> ostream \<Rightarrow> ostream" where
  "log_error msg out = log_with_prefix ''[ERR ] '' msg out"

section \<open>Driver (main.cpp)\<close>

text \<open>
  \<^verbatim>\<open>std::stoi(str)\<close> calls \<^verbatim>\<open>strtol\<close> in base 10: it skips the leading white space
  of the "C" locale, reads an optional sign and the longest run of decimal digits, and
  ignores what follows. \<^verbatim>\<open>strtol\<close> reports that no digit was read, or the value clamped
  to the range of \<^verbatim>\<open>long\<close> (64 bits) with \<^verbatim>\<open>errno\<close> set to \<^verbatim>\<open>ERANGE\<close>. \<^verbatim>\<open>stoi\<close>
  throws \<^verbatim>\<open>invalid_argument\<close> in the first case and \<^verbatim>\<open>out_of_range\<close> when
  \<^verbatim>\<open>ERANGE\<close> is set or the value does not fit an \<^verbatim>\<open>int\<close>.
\<close>

definition isspace :: "char \<Rightarrow> bool" where
  "isspace c = ((of_char c :: nat) = 32 \<or> (9 \<le> (of_char c :: nat) \<and> (of_char c :: nat) \<le> 13))"

definition isdigit :: "char \<Rightarrow> bool" where
  "isdigit c = (48 \<le> (of_char c :: nat) \<and> (of_char c :: nat) \<le> 57)"

fun decimal :: "string \<Rightarrow> int \<Rightarrow> int" where
  "decimal [] acc = acc"
| "decimal (c # cs) acc = decimal cs (10 * acc + (of_char c - 48))"

datatype strtol_result = NoConversion | Converted int bool

definition LONG_MAX :: int where
  "LONG_MAX = 2 ^ 63 - 1"

definition LONG_MIN :: int where
  "LONG_MIN = - (2 ^ 63)"

definition strtol :: "string \<Rightarrow> strtol_result" where
  "strtol s =
     (let s1 = dropWhile isspace s;
          (neg, s2) =
            (case s1 of
               [] \<Rightarrow> (False, [])
             | c # r \<Rightarrow>
                 if c = CHR ''-'' then (True, r)
                 else if c = CHR ''+'' then (False, r)
                 else (False, s1));
          ds = takeWhile isdigit s2
      in
        if ds = [] then NoConversion
        else
          let v = (if neg then - decimal ds 0 else decimal ds 0) in
          if v < LONG_MIN then Converted LONG_MIN True
          else if LONG_MAX < v then Converted LONG_MAX True
          else Converted v False)"

definition stoi :: "string \<Rightarrow> exn + int32" where
  "stoi str =
     (case strtol str of
        NoConversion \<Rightarrow> Inl InvalidArgument
      | Converted v erange \<Rightarrow>
          if erange \<or> v < sint INT_MIN \<or> sint INT_MAX < v then Inl OutOfRange
          else Inr (word_of_int v))"

text \<open>
  The loop of \<^verbatim>\<open>parse_args\<close> over \<^verbatim>\<open>argv[1]\<close>, ..., \<^verbatim>\<open>argv[argc - 1]\<close>, on the state
  \<open>(values, out)\<close>: \<^verbatim>\<open>catch (...)\<close> handles whatever \<^verbatim>\<open>stoi\<close> throws.
\<close>

fun parse_loop :: "string list \<Rightarrow> int32 list \<times> ostream \<Rightarrow> int32 list \<times> ostream" where
  "parse_loop [] st = st"
| "parse_loop (arg # args) (values, out) =
     parse_loop args
       (case stoi arg of
          Inr v \<Rightarrow> (values @ [v], out)
        | Inl e \<Rightarrow> (values, log_warning (''Ignoring invalid number: '' @ arg) out))"

definition parse_args :: "string list \<Rightarrow> ostream \<Rightarrow> int32 list \<times> ostream" where
  "parse_args argv out = parse_loop (drop 1 argv) ([], out)"

text \<open>
  How \<^verbatim>\<open>operator<<\<close> prints a \<^verbatim>\<open>size_t\<close>, a \<^verbatim>\<open>double\<close> and an \<^verbatim>\<open>int\<close> is the
  business of the stream's \<^verbatim>\<open>num_put\<close> facet, a parameter of \<open>main\<close>.
\<close>

record num_put =
  put_size :: "nat \<Rightarrow> string"
  put_double :: "double \<Rightarrow> string"
  put_int :: "int32 \<Rightarrow> string"

text \<open>\<open>main\<close> returns the exit status and what it wrote to standard output.\<close>

definition main :: "num_put \<Rightarrow> bool \<Rightarrow> string list \<Rightarrow> int \<times> ostream" where
  "main np verbose argv =
     (let (values, out0) = parse_args argv [] in
      if values = [] then
        (0, log_info verbose ''No numbers provided. Example: ./demo 1 2 3 4'' out0)
      else
        let s = compute_stats values;
            out1 = out0 @ ''Count: '' @ put_size np (length values) @ [CHR 0x0A];
            out2 = out1 @ ''Mean:  '' @ put_double np (mean s) @ [CHR 0x0A];
            out3 = out2 @ ''Min:   '' @ put_double np (min' s) @ [CHR 0x0A];
            out4 = out3 @ ''Max:   '' @ put_double np (max' s) @ [CHR 0x0A];
            increasing = is_strictly_increasing values;
            out5 = out4 @ ''Strictly increasing: '' @ (if increasing then ''YES'' else ''NO'')
                     @ [CHR 0x0A];
            sum_acc = foldl add 0 values;
            out6 = out5 @ ''Sum via add(): '' @ put_int np sum_acc @ [CHR 0x0A];
            out7 = out6 @ ''Sum * 2 via multiply(): '' @ put_int np (multiply sum_acc 2)
                     @ [CHR 0x0A]
        in (0, out7))"

section \<open>Verification: StringUtils\<close>

lemma first_not_of_from_eq:
  "first_not_of_from s chars i =
     (if set s \<subseteq> set chars then None
      else Some (i + length (takeWhile (\<lambda>c. c \<in> set chars) s)))"
  by (induction s arbitrary: i) auto

lemma find_first_not_of_eq:
  "find_first_not_of s chars =
     (if set s \<subseteq> set chars then None
      else Some (length (takeWhile (\<lambda>c. c \<in> set chars) s)))"
  by (simp add: find_first_not_of_def first_not_of_from_eq)

lemma find_last_not_of_eq:
  "find_last_not_of s chars =
     (if set s \<subseteq> set chars then None
      else Some (length s - 1 - length (takeWhile (\<lambda>c. c \<in> set chars) (rev s))))"
  by (simp add: find_last_not_of_def first_not_of_from_eq)

lemma length_takeWhile_less:
  "x \<in> set xs \<Longrightarrow> \<not> P x \<Longrightarrow> length (takeWhile P xs) < length xs"
  by (induction xs) auto

text \<open>The two scans of a string that is not all blank, and the slice between them.\<close>

lemma slice_between_scans:
  fixes s :: "'a list"
  assumes "\<not> set s \<subseteq> A"
  defines "P \<equiv> \<lambda>c. c \<in> A"
  defines "a \<equiv> length (takeWhile P s)"
  defines "b \<equiv> length s - 1 - length (takeWhile P (rev s))"
  shows "a \<le> b" and "b < length s"
    and "take (b - a + 1) (drop a s) = rev (dropWhile P (rev (dropWhile P s)))"
proof -
  let ?d = "dropWhile P s"
  let ?k = "length (takeWhile P (rev ?d))"
  from assms(1) obtain x where x: "x \<in> set s" "\<not> P x" by (auto simp: P_def)
  then have "?d \<noteq> []" by (auto simp: dropWhile_eq_Nil_conv)
  then have hd: "hd ?d \<in> set (rev ?d)" "\<not> P (hd ?d)"
    using hd_dropWhile [of P s] by auto
  have len: "length s = a + length ?d"
    unfolding a_def by (metis length_append takeWhile_dropWhile_id)
  have "rev s = rev ?d @ rev (takeWhile P s)"
    by (metis rev_append takeWhile_dropWhile_id)
  then have tw: "takeWhile P (rev s) = takeWhile P (rev ?d)"
    using hd by (simp add: takeWhile_append1)
  have k: "?k < length ?d"
    using length_takeWhile_less [of "hd ?d" "rev ?d" P] hd by simp
  have b: "b = a + length ?d - 1 - ?k"
    by (simp add: b_def tw len)
  show "a \<le> b" using k b by linarith
  show "b < length s" using k b len by linarith
  have cnt: "b - a + 1 = length ?d - ?k" using k b by linarith
  have "rev (dropWhile P (rev ?d)) = rev (drop ?k (rev ?d))"
    by (simp add: dropWhile_eq_drop)
  also have "\<dots> = take (length ?d - ?k) ?d"
    by (simp add: rev_drop)
  finally have r: "rev (dropWhile P (rev ?d)) = take (length ?d - ?k) ?d" .
  have "drop a s = ?d"
    by (simp add: a_def dropWhile_eq_drop)
  then show "take (b - a + 1) (drop a s) = rev (dropWhile P (rev ?d))"
    by (simp only: r cnt)
qed

lemma trim_indices:
  assumes "find_first_not_of s whitespace = Some start"
  shows "\<exists>end'. find_last_not_of s whitespace = Some end' \<and> start \<le> end' \<and> end' < length s"
  using assms slice_between_scans(1,2) [of s "set whitespace"]
  by (auto simp: find_first_not_of_eq find_last_not_of_eq split: if_splits)

lemma trim_eq:
  "trim s = Inr (rev (dropWhile (\<lambda>c. c \<in> set whitespace) (rev (dropWhile (\<lambda>c. c \<in> set whitespace) s))))"
proof (cases "set s \<subseteq> set whitespace")
  case True
  then show ?thesis
    by (auto simp: trim_def find_first_not_of_eq dest: set_dropWhileD)
next
  case False
  let ?P = "\<lambda>c. c \<in> set whitespace"
  have "length (takeWhile ?P s) \<le> length s"
    by (rule length_takeWhile_le)
  with False show ?thesis
    using slice_between_scans(3) [OF False]
    by (simp add: trim_def find_first_not_of_eq find_last_not_of_eq substr_def)
qed

lemma traits_compare_eq: "traits_compare a b = 0 \<longleftrightarrow> a = b"
  by (induction a b rule: traits_compare.induct) auto

lemma starts_with_eq:
  "starts_with s p = Inr (length p \<le> length s \<and> take (length p) s = p)"
  by (auto simp: starts_with_def compare_def traits_compare_eq)

lemma ends_with_eq:
  "ends_with s x = Inr (length x \<le> length s \<and> drop (length s - length x) s = x)"
  by (auto simp: ends_with_def compare_def traits_compare_eq)

text \<open>
  Claim C6. For every string \<open>s\<close>, \<open>trim s\<close> returns (without throwing) \<open>s\<close> with its
  leading and its trailing characters from the set of space, tab, newline and carriage
  return removed; it is empty if \<open>s\<close> is empty or has only such characters;
  \<open>trim "  a b  " = "a b"\<close> and \<open>trim "   " = ""\<close>.
\<close>

theorem trim_spec:
  "set whitespace = {CHR '' '', CHR 0x09, CHR 0x0A, CHR 0x0D}
   \<and> trim s = Inr (rev (dropWhile (\<lambda>c. c \<in> set whitespace)
                        (rev (dropWhile (\<lambda>c. c \<in> set whitespace) s))))
   \<and> (set s \<subseteq> set whitespace \<longrightarrow> trim s = Inr [])
   \<and> trim ''  a b  '' = Inr ''a b''
   \<and> trim ''   '' = Inr []"
proof (intro conjI impI)
  show "set whitespace = {CHR '' '', CHR 0x09, CHR 0x0A, CHR 0x0D}"
    by (simp add: whitespace_def)
  show "trim s = Inr (rev (dropWhile (\<lambda>c. c \<in> set whitespace)
                        (rev (dropWhile (\<lambda>c. c \<in> set whitespace) s))))"
    by (rule trim_eq)
  show "trim s = Inr []" if "set s \<subseteq> set whitespace"
    using that by (simp add: trim_def find_first_not_of_eq)
  show "trim ''  a b  '' = Inr ''a b''"
    by (simp add: trim_eq whitespace_def)
  show "trim ''   '' = Inr []"
    by (simp add: trim_eq whitespace_def)
qed

theorem trim_spec_witness:
  "set ''   '' \<subseteq> set whitespace \<and> trim ''   '' = Inr []"
  using trim_spec [of "''   ''"] by (simp add: whitespace_def)

lemma dropWhile_fixed: "xs = [] \<or> \<not> P (hd xs) \<Longrightarrow> dropWhile P xs = xs"
  by (cases xs) auto

lemma strip_idem:
  fixes P :: "'a \<Rightarrow> bool"
  defines "strip \<equiv> \<lambda>s. rev (dropWhile P (rev (dropWhile P s)))"
  shows "strip (strip s) = strip s"
proof -
  let ?d = "dropWhile P s"
  let ?t = "rev (dropWhile P (rev ?d))"
  let ?u = "rev (takeWhile P (rev ?d))"
  have "rev ?d = takeWhile P (rev ?d) @ dropWhile P (rev ?d)"
    by (rule takeWhile_dropWhile_id [symmetric])
  then have "rev (rev ?d) = rev (takeWhile P (rev ?d) @ dropWhile P (rev ?d))"
    by (rule arg_cong)
  then have d: "?d = ?t @ ?u"
    by (simp only: rev_rev_ident rev_append)
  have front: "dropWhile P ?t = ?t"
  proof (rule dropWhile_fixed, cases "?t = []")
    case True
    then show "?t = [] \<or> \<not> P (hd ?t)" by (rule disjI1)
  next
    case False
    then have "hd (?t @ ?u) = hd ?t" by (rule hd_append2)
    with d have hd: "hd ?d = hd ?t" by (simp only:)
    from False d have "?d \<noteq> []" by (metis append_is_Nil_conv)
    then have "\<not> P (hd ?d)" by (rule hd_dropWhile)
    with hd show "?t = [] \<or> \<not> P (hd ?t)" by (simp only: simp_thms)
  qed
  have rear: "dropWhile P (rev ?t) = rev ?t"
    by (simp only: rev_rev_ident dropWhile_idem)
  have "strip (strip s) = rev (dropWhile P (rev (dropWhile P ?t)))"
    by (simp only: strip_def)
  also have "\<dots> = rev (dropWhile P (rev ?t))"
    by (subst front) (rule refl)
  also have "\<dots> = rev (rev ?t)"
    by (subst rear) (rule refl)
  also have "\<dots> = ?t"
    by (rule rev_rev_ident)
  finally show ?thesis by (simp only: strip_def)
qed

text \<open>
  Claim C10. \<open>trim\<close> is idempotent: trimming the result of \<open>trim s\<close> gives it back.
\<close>

theorem trim_idempotent:
  "\<exists>t. trim s = Inr t \<and> trim t = Inr t"
proof -
  let ?P = "\<lambda>c. c \<in> set whitespace"
  let ?t = "rev (dropWhile ?P (rev (dropWhile ?P s)))"
  have "trim ?t = Inr (rev (dropWhile ?P (rev (dropWhile ?P ?t))))"
    by (rule trim_eq)
  also have "rev (dropWhile ?P (rev (dropWhile ?P ?t))) = ?t"
    by (rule strip_idem)
  finally have "trim ?t = Inr ?t" .
  moreover have "trim s = Inr ?t"
    by (rule trim_eq)
  ultimately show ?thesis by blast
qed

text \<open>
  Claim C7. \<open>starts_with s prefix\<close> is true iff \<open>prefix\<close> is no longer than \<open>s\<close> and the
  first \<open>length prefix\<close> bytes of \<open>s\<close> are \<open>prefix\<close>; \<open>ends_with s suffix\<close> is true iff
  \<open>suffix\<close> fits and the last \<open>length suffix\<close> bytes of \<open>s\<close> are \<open>suffix\<close>; the empty
  prefix and suffix match every \<open>s\<close>; \<open>starts_with "ab" "abc"\<close> is false.
\<close>

theorem starts_ends_with_spec:
  "starts_with s p = Inr (length p \<le> length s \<and> take (length p) s = p)
   \<and> ends_with s p = Inr (length p \<le> length s \<and> drop (length s - length p) s = p)
   \<and> starts_with s [] = Inr True
   \<and> ends_with s [] = Inr True
   \<and> starts_with ''ab'' ''abc'' = Inr False"
  by (simp add: starts_with_eq ends_with_eq)

lemma of_char_less: "(of_char c :: nat) < 256"
  using of_char_mod_256 [of c, where ?'a = nat] mod_less_divisor [of 256 "of_char c"]
  by (metis zero_less_numeral)

lemma toupper_tolower_byte:
  "c < 256 \<Longrightarrow> toupper (tolower c mod 256) mod 256 = toupper c mod 256"
  by (auto simp: toupper_def tolower_def)

lemma to_upper_to_lower: "to_upper (to_lower s) = to_upper s"
  by (simp add: to_upper_def to_lower_def toupper_tolower_byte of_char_less)


text \<open>
  Claim C8. For every string \<open>s\<close> of ASCII letters only,
  \<open>to_upper (to_lower s) = to_upper s\<close>.
\<close>

theorem to_upper_to_lower_alphabetic:
  "list_all ascii_alphabetic s \<Longrightarrow> to_upper (to_lower s) = to_upper s"
  by (rule to_upper_to_lower)

theorem to_upper_to_lower_alphabetic_witness:
  "list_all ascii_alphabetic ''aBcZ''
   \<and> to_upper (to_lower ''aBcZ'') = to_upper ''aBcZ''
   \<and> to_lower ''aBcZ'' = ''abcz'' \<and> to_upper ''aBcZ'' = ''ABCZ''"
proof -
  have h: "list_all ascii_alphabetic ''aBcZ''"
    by (simp add: ascii_alphabetic_def)
  have "to_lower ''aBcZ'' = ''abcz''" "to_upper ''aBcZ'' = ''ABCZ''"
    by code_simp+
  with h to_upper_to_lower_alphabetic [OF h] show ?thesis by simp
qed

section \<open>Verification: is\_strictly\_increasing\<close>

lemma increasing_loop_eq:
  "increasing_loop v i \<longleftrightarrow> (\<forall>j. i \<le> j \<and> j < length v \<longrightarrow> sint (v ! (j - 1)) < sint (v ! j))"
proof (induction v i rule: increasing_loop.induct)
  case (1 v i)
  show ?case
  proof (cases "i < length v")
    case False
    then show ?thesis by (simp add: increasing_loop.simps [of v i])
  next
    case True
    show ?thesis
    proof (cases "sint (v ! i) \<le> sint (v ! (i - 1))")
      case le: True
      have "\<not> increasing_loop v i"
        using True le by (subst increasing_loop.simps) simp
      moreover have "\<not> (\<forall>j. i \<le> j \<and> j < length v \<longrightarrow> sint (v ! (j - 1)) < sint (v ! j))"
        using True le by (auto intro!: exI [of _ i])
      ultimately show ?thesis by blast
    next
      case gt: False
      have "increasing_loop v i = increasing_loop v (i + 1)"
        using True gt by (subst increasing_loop.simps) simp
      also have "\<dots> \<longleftrightarrow> (\<forall>j. i + 1 \<le> j \<and> j < length v \<longrightarrow> sint (v ! (j - 1)) < sint (v ! j))"
        using "1.IH" [OF True gt] by simp
      also have "\<dots> \<longleftrightarrow> (\<forall>j. i \<le> j \<and> j < length v \<longrightarrow> sint (v ! (j - 1)) < sint (v ! j))"
      proof (intro iffI allI impI)
        fix j
        assume h: "\<forall>j. i + 1 \<le> j \<and> j < length v \<longrightarrow> sint (v ! (j - 1)) < sint (v ! j)"
          and j: "i \<le> j \<and> j < length v"
        show "sint (v ! (j - 1)) < sint (v ! j)"
        proof (cases "j = i")
          case True
          then show ?thesis using gt by simp
        next
          case False
          with j have "i + 1 \<le> j" by simp
          with h j show ?thesis by blast
        qed
      next
        fix j
        assume h: "\<forall>j. i \<le> j \<and> j < length v \<longrightarrow> sint (v ! (j - 1)) < sint (v ! j)"
          and j: "i + 1 \<le> j \<and> j < length v"
        then show "sint (v ! (j - 1)) < sint (v ! j)" by simp
      qed
      finally show ?thesis .
    qed
  qed
qed

lemma is_strictly_increasing_eq:
  "is_strictly_increasing v \<longleftrightarrow> (\<forall>j. 2 \<le> j \<and> j < length v \<longrightarrow> sint (v ! (j - 1)) < sint (v ! j))"
  by (auto simp: is_strictly_increasing_def increasing_loop_eq)


text \<open>
  Claim C1. \<open>is_strictly_increasing v\<close> is true if \<open>v\<close> has at most one element; for two
  or more elements it is true iff no index \<open>i\<close> with \<open>2 \<le> i \<le> length v - 1\<close> has
  \<open>v[i] \<le> v[i - 1]\<close>. The pair \<open>(v[0], v[1])\<close> is never compared: the result does not
  depend on the first element. \<open>[5, 1, 2, 3]\<close> is accepted, \<open>[1, 2, 2, 3]\<close> is rejected,
  \<open>[]\<close> and \<open>[x]\<close> are accepted.
\<close>

theorem is_strictly_increasing_spec:
  "(length v \<le> 1 \<longrightarrow> is_strictly_increasing v)
   \<and> (2 \<le> length v \<longrightarrow>
        (is_strictly_increasing v \<longleftrightarrow>
           \<not> (\<exists>i. 2 \<le> i \<and> i \<le> length v - 1 \<and> sint (v ! i) \<le> sint (v ! (i - 1)))))
   \<and> is_strictly_increasing (x # xs) = is_strictly_increasing (y # xs)
   \<and> is_strictly_increasing [5, 1, 2, 3]
   \<and> \<not> is_strictly_increasing [1, 2, 2, 3]
   \<and> is_strictly_increasing []
   \<and> is_strictly_increasing [x]"
proof (intro conjI impI)
  show "is_strictly_increasing v" if "length v \<le> 1"
    using that by (simp add: is_strictly_increasing_def)
  show "is_strictly_increasing v \<longleftrightarrow>
           \<not> (\<exists>i. 2 \<le> i \<and> i \<le> length v - 1 \<and> sint (v ! i) \<le> sint (v ! (i - 1)))"
    if "2 \<le> length v"
  proof -
    have "(\<forall>j. 2 \<le> j \<and> j < length v \<longrightarrow> sint (v ! (j - 1)) < sint (v ! j)) \<longleftrightarrow>
          (\<forall>i. \<not> (2 \<le> i \<and> i \<le> length v - 1 \<and> sint (v ! i) \<le> sint (v ! (i - 1))))"
    proof (intro iff_allI)
      fix i
      have "i \<le> length v - 1 \<longleftrightarrow> i < length v"
        using that by linarith
      then show "(2 \<le> i \<and> i < length v \<longrightarrow> sint (v ! (i - 1)) < sint (v ! i)) \<longleftrightarrow>
                 \<not> (2 \<le> i \<and> i \<le> length v - 1 \<and> sint (v ! i) \<le> sint (v ! (i - 1)))"
        by (simp only: not_le [symmetric]) blast
    qed
    then show ?thesis
      by (simp only: is_strictly_increasing_eq not_ex)
  qed
  have "(x # xs) ! (j - 1) = (y # xs) ! (j - 1) \<and> (x # xs) ! j = (y # xs) ! j" if "2 \<le> j" for j
    using that by (cases j) (auto simp: nth_Cons')
  then show "is_strictly_increasing (x # xs) = is_strictly_increasing (y # xs)"
    unfolding is_strictly_increasing_eq by simp
  show "is_strictly_increasing [5, 1, 2, 3]"
    by code_simp
  show "\<not> is_strictly_increasing [1, 2, 2, 3]"
    by code_simp
  show "is_strictly_increasing []" "is_strictly_increasing [x]"
    by (simp_all add: is_strictly_increasing_def)
qed


theorem is_strictly_increasing_spec_witness:
  "length [5, 1 :: int32] \<le> 2 \<and> 2 \<le> length [1, 2, 2, 3 :: int32]
   \<and> (is_strictly_increasing [1, 2, 2, 3] \<longleftrightarrow>
        \<not> (\<exists>i. 2 \<le> i \<and> i \<le> length [1, 2, 2, 3 :: int32] - 1
              \<and> sint ([1, 2, 2, 3 :: int32] ! i) \<le> sint ([1, 2, 2, 3 :: int32] ! (i - 1))))
   \<and> (length [7 :: int32] \<le> 1 \<and> is_strictly_increasing [7])"
  using is_strictly_increasing_spec [of "[1, 2, 2, 3]" 0 "[]" 0]
    is_strictly_increasing_spec [of "[7]" 0 "[]" 0]
  by simp

section \<open>Verification: Driver\<close>

lemma main_exit: "fst (main np verbose argv) = 0"
  by (simp add: main_def Let_def split: prod.split)

lemma parse_loop_eq:
  "parse_loop args (values, out) =
     (values @ map projr (filter (\<lambda>r. \<not> isl r) (map stoi args)),
      out @ concat (map (\<lambda>tok. ''[WARN] Ignoring invalid number: '' @ tok @ [CHR 0x0A])
                     (filter (\<lambda>tok. isl (stoi tok)) args)))"
proof (induction args arbitrary: "values" out)
  case Nil
  show ?case by simp
next
  case (Cons a args)
  show ?case
    by (cases "stoi a") (simp_all add: Cons.IH log_warning_def log_with_prefix_def)
qed


text \<open>
  Claim C4. Whatever the argument list, \<open>parse_args\<close> returns the values of the tokens
  that \<open>stoi\<close> parses, in the order given, with nothing in the place of the others; and
  it appends to standard output, for each token that \<open>stoi\<close> rejects and in argument
  order, exactly one line \<open>[WARN] Ignoring invalid number: \<close> followed by the token.
\<close>

theorem parse_args_spec:
  "parse_args argv out =
     (map projr (filter (\<lambda>r. \<not> isl r) (map stoi (drop 1 argv))),
      out @ concat (map (\<lambda>tok. ''[WARN] Ignoring invalid number: '' @ tok @ [CHR 0x0A])
                     (filter (\<lambda>tok. isl (stoi tok)) (drop 1 argv))))"
  by (simp add: parse_args_def parse_loop_eq)

text \<open>
  Claim C5. If no token parses, \<open>main\<close> writes, after the warnings, one informational
  line with the usage hint and returns 0; and \<open>main\<close> returns 0 for every argument list.
\<close>

theorem main_exit_status:
  "fst (main np verbose argv) = 0
   \<and> (fst (parse_args argv []) = [] \<longrightarrow>
        main np verbose argv =
          (0, snd (parse_args argv [])
                @ (if verbose then ''[INFORMATION] '' else ''[INFO] '')
                @ ''No numbers provided. Example: ./demo 1 2 3 4'' @ [CHR 0x0A]))"
proof (intro conjI impI)
  show "fst (main np verbose argv) = 0"
    by (rule main_exit)
next
  assume e: "fst (parse_args argv []) = []"
  obtain out0 where p: "parse_args argv [] = ([], out0)"
    using e by (cases "parse_args argv []") simp
  show "main np verbose argv =
          (0, snd (parse_args argv [])
                @ (if verbose then ''[INFORMATION] '' else ''[INFO] '')
                @ ''No numbers provided. Example: ./demo 1 2 3 4'' @ [CHR 0x0A])"
    by (simp add: main_def p log_info_def log_with_prefix_def)
qed

theorem main_exit_status_witness:
  "fst (parse_args [''demo'', ''three''] []) = []
   \<and> main \<lparr>put_size = (\<lambda>n. []), put_double = (\<lambda>d. []), put_int = (\<lambda>i. [])\<rparr>
          False [''demo'', ''three''] =
        (0, ''[WARN] Ignoring invalid number: three'' @ [CHR 0x0A]
              @ ''[INFO] No numbers provided. Example: ./demo 1 2 3 4'' @ [CHR 0x0A])"
proof -
  have s: "stoi ''three'' = Inl InvalidArgument"
    by (simp add: stoi_def strtol_def isspace_def isdigit_def)
  have p: "parse_args [''demo'', ''three''] [] =
             ([], ''[WARN] Ignoring invalid number: three'' @ [CHR 0x0A])"
    by (simp add: parse_args_def s log_warning_def log_with_prefix_def)
  then have h: "fst (parse_args [''demo'', ''three''] []) = []" by simp
  from main_exit_status
         [of "\<lparr>put_size = (\<lambda>n. []), put_double = (\<lambda>d. []), put_int = (\<lambda>i. [])\<rparr>"
             False "[''demo'', ''three'']"] h p
  show ?thesis by simp
qed

lemma isdigit_chars: "isdigit d \<Longrightarrow> d \<noteq> CHR ''-'' \<and> d \<noteq> CHR ''+'' \<and> \<not> isspace d"
  by (auto simp: isdigit_def isspace_def)

lemma sign_not_space: "\<not> isspace CHR ''-''" "\<not> isspace CHR ''+''"
  by (simp_all add: isspace_def)

lemma int_range: "sint INT_MIN = - (2 ^ 31)" "sint INT_MAX = 2 ^ 31 - 1"
  by (simp_all add: INT_MIN_def INT_MAX_def)

lemma dropWhile_blanks: "list_all P ws \<Longrightarrow> dropWhile P (ws @ t) = dropWhile P t"
  by (induction ws) auto

lemma strtol_skip_blanks: "list_all isspace ws \<Longrightarrow> strtol (ws @ t) = strtol t"
  by (simp add: strtol_def dropWhile_blanks)

lemma stoi_skip_blanks: "list_all isspace ws \<Longrightarrow> stoi (ws @ t) = stoi t"
  by (simp add: stoi_def strtol_skip_blanks)

lemma stoi_digits:
  assumes d: "isdigit d"
  shows "stoi (d # rest) =
           (let v = decimal (d # takeWhile isdigit rest) 0 in
            if - (2 ^ 31) \<le> v \<and> v \<le> 2 ^ 31 - 1 then Inr (word_of_int v) else Inl OutOfRange)"
    and "stoi (CHR ''+'' # d # rest) =
           (let v = decimal (d # takeWhile isdigit rest) 0 in
            if - (2 ^ 31) \<le> v \<and> v \<le> 2 ^ 31 - 1 then Inr (word_of_int v) else Inl OutOfRange)"
    and "stoi (CHR ''-'' # d # rest) =
           (let v = - decimal (d # takeWhile isdigit rest) 0 in
            if - (2 ^ 31) \<le> v \<and> v \<le> 2 ^ 31 - 1 then Inr (word_of_int v) else Inl OutOfRange)"
  using d isdigit_chars [OF d] sign_not_space
  by (auto simp: stoi_def strtol_def Let_def int_range LONG_MIN_def LONG_MAX_def)

lemma stoi_prefix:
  assumes "list_all isspace ws" "sg = [] \<or> sg = ''+'' \<or> sg = ''-''" "isdigit d"
  shows "stoi (ws @ sg @ d # rest) =
           (let v = (if sg = ''-'' then - 1 else 1) * decimal (d # takeWhile isdigit rest) 0 in
            if - (2 ^ 31) \<le> v \<and> v \<le> 2 ^ 31 - 1 then Inr (word_of_int v) else Inl OutOfRange)"
proof -
  have "stoi (ws @ sg @ d # rest) = stoi (sg @ d # rest)"
    using assms(1) by (rule stoi_skip_blanks)
  also have "\<dots> =
           (let v = (if sg = ''-'' then - 1 else 1) * decimal (d # takeWhile isdigit rest) 0 in
            if - (2 ^ 31) \<le> v \<and> v \<le> 2 ^ 31 - 1 then Inr (word_of_int v) else Inl OutOfRange)"
    using assms(2) stoi_digits [OF assms(3), of rest]
    by (elim disjE) (simp_all only: append_Nil append_Cons list.simps char.inject simp_thms if_False if_True mult_1 mult_minus1)
  finally show ?thesis .
qed

lemma takeWhile_nonempty: "takeWhile P xs \<noteq> [] \<Longrightarrow> \<exists>d rest. xs = d # rest \<and> P d"
  by (cases xs) (auto split: if_splits)

lemma strtol_converted:
  assumes "strtol tok \<noteq> NoConversion"
  shows "\<exists>sg d rest. dropWhile isspace tok = sg @ d # rest
           \<and> (sg = [] \<or> sg = ''+'' \<or> sg = ''-'') \<and> isdigit d"
proof (cases "dropWhile isspace tok")
  case Nil
  with assms show ?thesis by (simp add: strtol_def)
next
  case (Cons c r)
  consider (minus) "c = CHR ''-''" | (plus) "c = CHR ''+''" | (other) "c \<noteq> CHR ''-''" "c \<noteq> CHR ''+''"
    by blast
  then show ?thesis
  proof cases
    case minus
    with assms Cons have "takeWhile isdigit r \<noteq> []"
      by (auto simp: strtol_def Let_def split: if_splits)
    then obtain d rest where "r = d # rest" "isdigit d"
      using takeWhile_nonempty by blast
    with Cons minus have "dropWhile isspace tok = ''-'' @ d # rest \<and> isdigit d" by simp
    then show ?thesis by blast
  next
    case plus
    with assms Cons have "takeWhile isdigit r \<noteq> []"
      by (auto simp: strtol_def Let_def split: if_splits)
    then obtain d rest where "r = d # rest" "isdigit d"
      using takeWhile_nonempty by blast
    with Cons plus have "dropWhile isspace tok = ''+'' @ d # rest \<and> isdigit d" by simp
    then show ?thesis by blast
  next
    case other
    with assms Cons have "takeWhile isdigit (c # r) \<noteq> []"
      by (auto simp: strtol_def Let_def split: if_splits)
    then have "isdigit c"
      by (auto split: if_splits)
    with Cons have "dropWhile isspace tok = [] @ c # r \<and> isdigit c" by simp
    then show ?thesis by blast
  qed
qed

lemma stoi_no_prefix:
  assumes "stoi tok \<noteq> Inl InvalidArgument"
  shows "\<exists>ws sg d rest. tok = ws @ sg @ d # rest \<and> list_all isspace ws
           \<and> (sg = [] \<or> sg = ''+'' \<or> sg = ''-'') \<and> isdigit d"
proof -
  have conv: "strtol tok \<noteq> NoConversion"
    using assms by (auto simp: stoi_def)
  then obtain sg d rest where s1: "dropWhile isspace tok = sg @ d # rest"
      and sg: "sg = [] \<or> sg = ''+'' \<or> sg = ''-''" and d: "isdigit d"
    using strtol_converted by blast
  have "tok = takeWhile isspace tok @ dropWhile isspace tok"
    by (rule takeWhile_dropWhile_id [symmetric])
  then have tok: "tok = takeWhile isspace tok @ sg @ d # rest"
    by (simp only: s1)
  have ws: "list_all isspace (takeWhile isspace tok)"
    unfolding list_all_iff by (blast dest: set_takeWhileD)
  from tok ws sg d show ?thesis by blast
qed

text \<open>
  Claim C9. A token is skipped with a warning iff \<open>stoi\<close> throws on it. A token made of
  blanks, an optional sign, at least one decimal digit and then anything is accepted,
  with the value of its signed digit prefix, if that value is in the range of \<^verbatim>\<open>int\<close>,
  and rejected (\<^verbatim>\<open>out_of_range\<close>) if not; so \<open>12abc\<close> gives 12 and \<open>  7x\<close> gives 7. A
  token that does not begin so is rejected (\<^verbatim>\<open>invalid_argument\<close>).
\<close>

theorem stoi_token_spec:
  "parse_args [prog, tok] out =
     (case stoi tok of
        Inr v \<Rightarrow> ([v], out)
      | Inl e \<Rightarrow> ([], out @ ''[WARN] Ignoring invalid number: '' @ tok @ [CHR 0x0A]))
   \<and> (list_all isspace ws \<and> (sg = [] \<or> sg = ''+'' \<or> sg = ''-'') \<and> isdigit d \<longrightarrow>
        stoi (ws @ sg @ d # rest) =
          (let v = (if sg = ''-'' then - 1 else 1) * decimal (d # takeWhile isdigit rest) 0 in
           if - (2 ^ 31) \<le> v \<and> v \<le> 2 ^ 31 - 1 then Inr (word_of_int v) else Inl OutOfRange))
   \<and> (stoi tok = Inl InvalidArgument \<longleftrightarrow>
        \<not> (\<exists>ws sg d rest. tok = ws @ sg @ d # rest \<and> list_all isspace ws
               \<and> (sg = [] \<or> sg = ''+'' \<or> sg = ''-'') \<and> isdigit d))
   \<and> stoi ''12abc'' = Inr 12
   \<and> stoi ''  7x'' = Inr 7
   \<and> stoi ''-2147483648'' = Inr INT_MIN
   \<and> stoi ''2147483648'' = Inl OutOfRange"
proof (intro conjI impI)
  show "parse_args [prog, tok] out =
     (case stoi tok of
        Inr v \<Rightarrow> ([v], out)
      | Inl e \<Rightarrow> ([], out @ ''[WARN] Ignoring invalid number: '' @ tok @ [CHR 0x0A]))"
    by (cases "stoi tok") (simp_all add: parse_args_def log_warning_def log_with_prefix_def)
next
  assume "list_all isspace ws \<and> (sg = [] \<or> sg = ''+'' \<or> sg = ''-'') \<and> isdigit d"
  then show "stoi (ws @ sg @ d # rest) =
          (let v = (if sg = ''-'' then - 1 else 1) * decimal (d # takeWhile isdigit rest) 0 in
           if - (2 ^ 31) \<le> v \<and> v \<le> 2 ^ 31 - 1 then Inr (word_of_int v) else Inl OutOfRange)"
    using stoi_prefix by blast
next
  show "stoi tok = Inl InvalidArgument \<longleftrightarrow>
        \<not> (\<exists>ws sg d rest. tok = ws @ sg @ d # rest \<and> list_all isspace ws
               \<and> (sg = [] \<or> sg = ''+'' \<or> sg = ''-'') \<and> isdigit d)"
  proof
    assume inv: "stoi tok = Inl InvalidArgument"
    show "\<not> (\<exists>ws sg d rest. tok = ws @ sg @ d # rest \<and> list_all isspace ws
               \<and> (sg = [] \<or> sg = ''+'' \<or> sg = ''-'') \<and> isdigit d)"
    proof
      assume "\<exists>ws sg d rest. tok = ws @ sg @ d # rest \<and> list_all isspace ws
               \<and> (sg = [] \<or> sg = ''+'' \<or> sg = ''-'') \<and> isdigit d"
      then obtain ws sg d rest where tok: "tok = ws @ sg @ d # rest"
        and h: "list_all isspace ws" "sg = [] \<or> sg = ''+'' \<or> sg = ''-''" "isdigit d"
        by blast
      have "stoi tok \<noteq> Inl InvalidArgument"
        unfolding tok stoi_prefix [OF h] by (simp add: Let_def)
      with inv show False by contradiction
    qed
  next
    assume "\<not> (\<exists>ws sg d rest. tok = ws @ sg @ d # rest \<and> list_all isspace ws
               \<and> (sg = [] \<or> sg = ''+'' \<or> sg = ''-'') \<and> isdigit d)"
    then show "stoi tok = Inl InvalidArgument"
      using stoi_no_prefix by blast
  qed
next
  show "stoi ''12abc'' = Inr 12" by code_simp
  show "stoi ''  7x'' = Inr 7" by code_simp
  show "stoi ''-2147483648'' = Inr INT_MIN" by code_simp
  show "stoi ''2147483648'' = Inl OutOfRange" by code_simp
qed

theorem stoi_token_spec_witness:
  "list_all isspace ''  '' \<and> isdigit CHR ''7''
   \<and> stoi (''  '' @ [] @ CHR ''7'' # ''x'') = Inr 7
   \<and> stoi ''three'' = Inl InvalidArgument
   \<and> parse_args [''demo'', ''three''] [] =
        ([], ''[WARN] Ignoring invalid number: three'' @ [CHR 0x0A])"
proof -
  have h: "list_all isspace ''  '' \<and> ([] = [] \<or> [] = ''+'' \<or> [] = ''-'') \<and> isdigit CHR ''7''"
    by (simp add: isspace_def isdigit_def)
  have t: "stoi ''three'' = Inl InvalidArgument"
    by code_simp
  have v: "decimal (CHR ''7'' # takeWhile isdigit ''x'') 0 = 7"
    by (simp add: isdigit_def)
  from stoi_token_spec [of "''demo''" "''three''" "[]" "''  ''" "[]" "CHR ''7''" "''x''"] h t v
  show ?thesis by simp
qed

section \<open>Verification: the rounding of doubles\<close>

lemma rne_of_int: "rne (of_int k) = k"
  by (simp add: rne_def)

lemma rne_ge: "of_int m \<le> q \<Longrightarrow> m \<le> rne q"
proof -
  assume "of_int m \<le> q"
  then have "m \<le> \<lfloor>q\<rfloor>" by (simp add: le_floor_iff)
  moreover have "\<lfloor>q\<rfloor> \<le> rne q" by (simp add: rne_def Let_def)
  ultimately show ?thesis by (rule order_trans)
qed

lemma rne_le: "q \<le> of_int m \<Longrightarrow> rne q \<le> m"
proof -
  assume h: "q \<le> of_int m"
  have f: "\<lfloor>q\<rfloor> \<le> m" using h by (simp add: floor_le_iff)
  show ?thesis
  proof (cases "q = of_int \<lfloor>q\<rfloor>")
    case True
    then have "rne q = \<lfloor>q\<rfloor>" by (simp add: rne_def)
    with f show ?thesis by simp
  next
    case False
    then have "of_int \<lfloor>q\<rfloor> < q" by (metis of_int_floor_le order.not_eq_order_implies_strict)
    then have "\<lfloor>q\<rfloor> < m" using h by (metis less_le_trans of_int_less_iff)
    moreover have "rne q \<le> \<lfloor>q\<rfloor> + 1" by (simp add: rne_def Let_def)
    ultimately show ?thesis by linarith
  qed
qed

lemma ilog2_lower: "0 < q \<Longrightarrow> 2 powi ilog2 q \<le> q"
proof (cases "1 \<le> q")
  case True
  then have pos: "0 < \<lfloor>q\<rfloor>" by simp
  have b: "1 \<le> bitlen \<lfloor>q\<rfloor>" using pos by (simp add: bitlen_alt_def)
  have "(2::int) ^ nat (bitlen \<lfloor>q\<rfloor> - 1) \<le> \<lfloor>q\<rfloor>"
    using bitlen_bounds [OF pos] by simp
  then have "(of_int ((2::int) ^ nat (bitlen \<lfloor>q\<rfloor> - 1)) :: rat) \<le> of_int \<lfloor>q\<rfloor>"
    by (simp only: of_int_le_iff)
  also have "\<dots> \<le> q" by simp
  finally have "(2::rat) ^ nat (bitlen \<lfloor>q\<rfloor> - 1) \<le> q" by simp
  moreover have "(2::rat) powi (bitlen \<lfloor>q\<rfloor> - 1) = 2 ^ nat (bitlen \<lfloor>q\<rfloor> - 1)"
    using b by (simp add: power_int_nonneg_exp)
  ultimately show ?thesis using True by (simp add: ilog2_def)
next
  case False
  assume q: "0 < q"
  let ?c = "\<lceil>1 / q\<rceil>"
  let ?k = "bitlen (?c - 1)"
  from False q have "1 < 1 / q" by (simp add: field_simps)
  then have c: "2 \<le> ?c" by (simp add: le_ceiling_iff) 
  then have pos: "0 < ?c - 1" by simp
  have "?c - 1 < 2 ^ nat ?k" using bitlen_bounds [OF pos] by simp
  then have "?c \<le> 2 ^ nat ?k" by simp
  then have "(of_int ?c :: rat) \<le> of_int (2 ^ nat ?k)" by (simp only: of_int_le_iff)
  with le_of_int_ceiling [of "1 / q"] have "1 / q \<le> of_int (2 ^ nat ?k)"
    by (rule order_trans)
  then have "1 / q \<le> 2 ^ nat ?k" by simp
  then have "1 / 2 ^ nat ?k \<le> q"
    using q by (simp add: field_simps)
  moreover have "(2::rat) powi (- ?k) = 1 / 2 ^ nat ?k"
    by (simp add: power_int_minus_divide power_int_nonneg_exp bitlen_nonneg)
  ultimately show ?thesis using False by (simp add: ilog2_def)
qed

lemma ilog2_upper: "0 < q \<Longrightarrow> q < 2 powi (ilog2 q + 1)"
proof (cases "1 \<le> q")
  case True
  then have pos: "0 < \<lfloor>q\<rfloor>" by simp
  have "\<lfloor>q\<rfloor> < 2 ^ nat (bitlen \<lfloor>q\<rfloor>)"
    using bitlen_bounds [OF pos] by simp
  then have "\<lfloor>q\<rfloor> + 1 \<le> 2 ^ nat (bitlen \<lfloor>q\<rfloor>)" by simp
  then have "(of_int (\<lfloor>q\<rfloor> + 1) :: rat) \<le> of_int (2 ^ nat (bitlen \<lfloor>q\<rfloor>))"
    by (simp only: of_int_le_iff)
  moreover have "q < of_int (\<lfloor>q\<rfloor> + 1)" by linarith
  ultimately have "q < of_int (2 ^ nat (bitlen \<lfloor>q\<rfloor>))" by linarith
  then have "q < 2 ^ nat (bitlen \<lfloor>q\<rfloor>)" by simp
  moreover have "(2::rat) powi (bitlen \<lfloor>q\<rfloor>) = 2 ^ nat (bitlen \<lfloor>q\<rfloor>)"
    by (simp add: power_int_nonneg_exp bitlen_nonneg)
  ultimately show ?thesis using True by (simp add: ilog2_def)
next
  case False
  assume q: "0 < q"
  let ?c = "\<lceil>1 / q\<rceil>"
  let ?k = "bitlen (?c - 1)"
  from False q have "1 < 1 / q" by (simp add: field_simps)
  then have c: "2 \<le> ?c" by (simp add: le_ceiling_iff)
  then have pos: "0 < ?c - 1" by simp
  then have k: "1 \<le> ?k" by (simp add: bitlen_alt_def)
  have "2 ^ nat (?k - 1) \<le> ?c - 1" using bitlen_bounds [OF pos] by simp
  then have "(of_int (2 ^ nat (?k - 1)) :: rat) \<le> of_int (?c - 1)"
    by (simp only: of_int_le_iff)
  moreover have "of_int (?c - 1) < 1 / q" by linarith
  ultimately have "of_int (2 ^ nat (?k - 1)) < 1 / q" by linarith
  then have "2 ^ nat (?k - 1) < 1 / q" by simp
  then have "q < 1 / 2 ^ nat (?k - 1)"
    using q by (simp add: field_simps)
  moreover have "(2::rat) powi (- ?k + 1) = 1 / 2 ^ nat (?k - 1)"
  proof -
    have "(2::rat) powi (- ?k + 1) = 2 powi (- (?k - 1))" by simp
    also have "\<dots> = 1 / 2 powi (?k - 1)" by (rule power_int_minus_divide)
    also have "\<dots> = 1 / 2 ^ nat (?k - 1)" using k by (simp add: power_int_nonneg_exp)
    finally show ?thesis .
  qed
  ultimately show ?thesis using False by (simp add: ilog2_def)
qed

lemma ulp_small:
  assumes "q \<noteq> 0" "\<bar>q\<bar> < 2 ^ 53"
  shows "\<exists>k::nat. ulp q = 1 / 2 ^ k"
proof -
  have pos: "0 < \<bar>q\<bar>" using assms(1) by simp
  have "(2::rat) powi ilog2 \<bar>q\<bar> \<le> \<bar>q\<bar>" using pos by (rule ilog2_lower)
  also have "\<bar>q\<bar> < 2 powi 53" using assms(2) by simp
  finally have "ilog2 \<bar>q\<bar> < 53"
    by (rule power_int_le_imp_less_exp [rotated]) simp_all
  then have e: "max (ilog2 \<bar>q\<bar>) (- 1022) - 52 \<le> 0" by simp
  let ?e = "max (ilog2 \<bar>q\<bar>) (- 1022) - 52"
  have "(2::rat) powi ?e = 2 powi (- (- ?e))" by simp
  also have "\<dots> = 1 / 2 powi (- ?e)" by (rule power_int_minus_divide)
  also have "\<dots> = 1 / 2 ^ nat (- ?e)" using e by (simp add: power_int_nonneg_exp)
  finally show ?thesis unfolding ulp_def by blast
qed

lemma round_double_ge:
  assumes "of_int m \<le> q" "\<bar>q\<bar> < 2 ^ 53"
  shows "of_int m \<le> round_double q"
proof (cases "q = 0")
  case True
  with assms show ?thesis by (simp add: round_double_def)
next
  case False
  then obtain k :: nat where u: "ulp q = 1 / 2 ^ k"
    using ulp_small assms(2) by blast
  have "(of_int (m * 2 ^ k) :: rat) = of_int m * 2 ^ k" by simp
  also have "\<dots> \<le> q * 2 ^ k" using assms(1) by (simp add: mult_right_mono)
  finally have "m * 2 ^ k \<le> rne (q * 2 ^ k)" by (rule rne_ge)
  then have "(of_int (m * 2 ^ k) :: rat) \<le> of_int (rne (q * 2 ^ k))"
    by (simp only: of_int_le_iff)
  then have "(of_int m :: rat) * 2 ^ k \<le> of_int (rne (q * 2 ^ k))" by simp
  then have "(of_int m :: rat) \<le> of_int (rne (q * 2 ^ k)) / 2 ^ k"
    by (simp add: pos_le_divide_eq)
  then show ?thesis using False by (simp add: round_double_def u)
qed

lemma round_double_le:
  assumes "q \<le> of_int m" "\<bar>q\<bar> < 2 ^ 53"
  shows "round_double q \<le> of_int m"
proof (cases "q = 0")
  case True
  with assms show ?thesis by (simp add: round_double_def)
next
  case False
  then obtain k :: nat where u: "ulp q = 1 / 2 ^ k"
    using ulp_small assms(2) by blast
  have "q * 2 ^ k \<le> of_int m * 2 ^ k" using assms(1) by (simp add: mult_right_mono)
  also have "\<dots> = (of_int (m * 2 ^ k) :: rat)" by simp
  finally have "rne (q * 2 ^ k) \<le> m * 2 ^ k" by (rule rne_le)
  then have "(of_int (rne (q * 2 ^ k)) :: rat) \<le> of_int (m * 2 ^ k)"
    by (simp only: of_int_le_iff)
  then have "(of_int (rne (q * 2 ^ k)) :: rat) \<le> of_int m * 2 ^ k" by simp
  then have "(of_int (rne (q * 2 ^ k)) :: rat) / 2 ^ k \<le> of_int m"
    by (simp add: pos_divide_le_eq)
  then show ?thesis using False by (simp add: round_double_def u)
qed

lemma round_double_pow53: "round_double (2 ^ 53) = 2 ^ 53" "round_double (- (2 ^ 53)) = - (2 ^ 53)"
  by code_simp+

lemma round_double_of_int:
  assumes "\<bar>k\<bar> \<le> 2 ^ 53"
  shows "round_double (of_int k) = of_int k"
proof (cases "\<bar>k\<bar> = 2 ^ 53")
  case True
  then have "k = 2 ^ 53 \<or> k = - (2 ^ 53)" by linarith
  then show ?thesis using round_double_pow53 by auto
next
  case False
  with assms have "\<bar>k\<bar> < 2 ^ 53" by simp
  then have "\<bar>of_int k :: rat\<bar> < of_int (2 ^ 53)"
    by (simp only: of_int_abs [symmetric] of_int_less_iff)
  then have b: "\<bar>of_int k :: rat\<bar> < 2 ^ 53" by simp
  have "of_int k \<le> round_double (of_int k)"
    by (rule round_double_ge [OF order_refl b])
  moreover have "round_double (of_int k) \<le> of_int k"
    by (rule round_double_le [OF order_refl b])
  ultimately show ?thesis by (rule antisym [rotated])
qed

text \<open>
  The model rounds to a nearest neighbour: the result is within half a unit in the last
  place of the argument, and in the normal range its significand has 53 bits.
\<close>

lemma rne_nearest: "\<bar>of_int (rne q) - q\<bar> \<le> 1 / 2"
proof -
  have "of_int \<lfloor>q\<rfloor> \<le> q" "q < of_int \<lfloor>q\<rfloor> + 1" by linarith+
  then show ?thesis
    by (auto simp: rne_def Let_def abs_le_iff)
qed

lemma ulp_pos: "0 < ulp q"
  by (simp add: ulp_def zero_less_power_int)

lemma round_double_nearest: "\<bar>round_double q - q\<bar> \<le> ulp q / 2"
proof (cases "q = 0")
  case True
  then show ?thesis using ulp_pos [of q] by (simp add: round_double_def)
next
  case False
  have "round_double q - q = (of_int (rne (q / ulp q)) - q / ulp q) * ulp q"
    using False ulp_pos [of q] by (simp add: round_double_def field_simps)
  then have "\<bar>round_double q - q\<bar> = \<bar>of_int (rne (q / ulp q)) - q / ulp q\<bar> * ulp q"
    using ulp_pos [of q] by (simp add: abs_mult)
  also have "\<dots> \<le> (1 / 2) * ulp q"
    using rne_nearest [of "q / ulp q"] ulp_pos [of q] by (intro mult_right_mono) simp_all
  finally show ?thesis by simp
qed

lemma round_double_significand:
  assumes "q \<noteq> 0" "- 1022 \<le> ilog2 \<bar>q\<bar>"
  shows "2 ^ 52 \<le> \<bar>rne (q / ulp q)\<bar> \<and> \<bar>rne (q / ulp q)\<bar> \<le> 2 ^ 53"
proof -
  let ?e = "ilog2 \<bar>q\<bar>"
  have pos: "0 < \<bar>q\<bar>" using assms(1) by simp
  have u: "ulp q = 2 powi (?e - 52)" using assms(2) by (simp add: ulp_def max_def)
  have up: "0 < ulp q" by (rule ulp_pos)
  have split: "(2::rat) powi ?e = 2 ^ 52 * ulp q" "(2::rat) powi (?e + 1) = 2 ^ 53 * ulp q"
    unfolding u by (simp_all add: power_int_diff power_int_add)
  have "2 ^ 52 * ulp q \<le> \<bar>q\<bar>" using ilog2_lower [OF pos] by (simp only: split)
  then have lo: "of_int (2 ^ 52) \<le> \<bar>q\<bar> / ulp q" using up by (simp add: pos_le_divide_eq)
  have "\<bar>q\<bar> < 2 ^ 53 * ulp q" using ilog2_upper [OF pos] by (simp only: split)
  then have hi: "\<bar>q\<bar> / ulp q \<le> of_int (2 ^ 53)" using up by (simp add: pos_divide_le_eq)
  show ?thesis
  proof (cases "0 < q")
    case True
    then have a: "of_int (2 ^ 52) \<le> q / ulp q" and b: "q / ulp q \<le> of_int (2 ^ 53)"
      using lo hi by simp_all
    have "2 ^ 52 \<le> rne (q / ulp q)" "rne (q / ulp q) \<le> 2 ^ 53"
      using rne_ge [OF a] rne_le [OF b] by simp_all
    then show ?thesis by simp
  next
    case False
    then have "\<bar>q\<bar> / ulp q = - (q / ulp q)" using assms(1) by simp
    then have a: "of_int (- (2 ^ 53)) \<le> q / ulp q" and b: "q / ulp q \<le> of_int (- (2 ^ 52))"
      using lo hi by simp_all
    have "- (2 ^ 53) \<le> rne (q / ulp q)" "rne (q / ulp q) \<le> - (2 ^ 52)"
      using rne_ge [OF a] rne_le [OF b] by simp_all
    then show ?thesis by simp
  qed
qed

section \<open>Verification: compute\_stats\<close>

lemma stats_loop_sum:
  "fst (stats_loop vs (s, mn, mx)) = s + sum_list (map scast vs)"
  by (induction vs arbitrary: s mn mx) (simp_all add: add.assoc)

lemma stats_loop_min:
  "sint (fst (snd (stats_loop vs (s, mn, mx)))) = fold min (map sint vs) (sint mn)"
proof (induction vs arbitrary: s mn mx)
  case Nil
  show ?case by simp
next
  case (Cons v vs)
  have "sint (if sint v < sint mn then v else mn) = min (sint v) (sint mn)"
    by (simp add: min_def)
  then show ?case
    by (simp only: stats_loop.simps Cons.IH list.map fold_simps)
qed

lemma stats_loop_max:
  "sint (snd (snd (stats_loop vs (s, mn, mx)))) = fold max (map sint vs) (sint mx)"
proof (induction vs arbitrary: s mn mx)
  case Nil
  show ?case by simp
next
  case (Cons v vs)
  have "sint (if sint mx < sint v then v else mx) = max (sint v) (sint mx)"
    by (simp add: max_def)
  then show ?case
    by (simp only: stats_loop.simps Cons.IH list.map fold_simps)
qed

lemma int32_range: "- 2147483648 \<le> sint (x :: int32)" "sint (x :: int32) \<le> 2147483647"
  using sint_ge [of x] sint_lt [of x] by simp_all

lemma fold_min_from_INT_MAX:
  assumes "vs \<noteq> []"
  shows "fold min (map sint vs) (sint INT_MAX) = Min (sint ` set (vs :: int32 list))"
proof -
  let ?A = "sint ` set vs"
  have fin: "finite ?A" and ne: "?A \<noteq> {}" using assms by simp_all
  have "Min ?A \<in> ?A" using fin ne by (rule Min_in)
  then obtain x :: int32 where "Min ?A = sint x" by auto
  then have le: "Min ?A \<le> sint INT_MAX"
    using int32_range(2) [of x] by (simp add: INT_MAX_def)
  have "fold min (map sint vs) (sint INT_MAX) = Min (set (sint INT_MAX # map sint vs))"
    by (rule Min.set_eq_fold [symmetric])
  also have "\<dots> = Min (insert (sint INT_MAX) ?A)" by simp
  also have "\<dots> = min (sint INT_MAX) (Min ?A)" using fin ne by (rule Min_insert)
  also have "\<dots> = Min ?A" using le by (rule min_absorb2)
  finally show ?thesis .
qed

lemma fold_max_from_INT_MIN:
  assumes "vs \<noteq> []"
  shows "fold max (map sint vs) (sint INT_MIN) = Max (sint ` set (vs :: int32 list))"
proof -
  let ?A = "sint ` set vs"
  have fin: "finite ?A" and ne: "?A \<noteq> {}" using assms by simp_all
  have "Max ?A \<in> ?A" using fin ne by (rule Max_in)
  then obtain x :: int32 where "Max ?A = sint x" by auto
  then have le: "sint INT_MIN \<le> Max ?A"
    using int32_range(1) [of x] by (simp add: INT_MIN_def)
  have "fold max (map sint vs) (sint INT_MIN) = Max (set (sint INT_MIN # map sint vs))"
    by (rule Max.set_eq_fold [symmetric])
  also have "\<dots> = Max (insert (sint INT_MIN) ?A)" by simp
  also have "\<dots> = max (sint INT_MIN) (Max ?A)" using fin ne by (rule Max_insert)
  also have "\<dots> = Max ?A" using le by (rule max_absorb2)
  finally show ?thesis .
qed

lemma sum_scast:
  "sum_list (map scast (vs :: int32 list)) = (word_of_int (sum_list (map sint vs)) :: int64)"
  by (induction vs) simp_all

lemma sum_list_bounds:
  "- 2147483648 * int (length vs) \<le> sum_list (map sint (vs :: int32 list))
   \<and> sum_list (map sint vs) \<le> 2147483647 * int (length vs)"
proof (induction vs)
  case Nil
  show ?case by simp
next
  case (Cons v vs)
  have "int (length (v # vs)) = int (length vs) + 1" by simp
  moreover have "sum_list (map sint (v # vs)) = sint v + sum_list (map sint vs)" by simp
  ultimately show ?case
    using Cons.IH int32_range [of v] by (simp only: ring_distribs) linarith
qed

lemma sint_sum_exact:
  assumes "length vs \<le> 2 ^ 32"
  shows "sint (sum_list (map scast (vs :: int32 list)) :: int64) = sum_list (map sint vs)"
proof -
  let ?S = "sum_list (map sint vs)"
  have "int (length vs) \<le> int (2 ^ 32)" using assms by (simp only: of_nat_le_iff)
  then have n: "int (length vs) \<le> 4294967296" by simp
  from sum_list_bounds [of vs] n have lo: "- (2 ^ 63) \<le> ?S" and hi: "?S < 2 ^ 63"
    by simp_all
  have "sint (word_of_int ?S :: int64) = signed_take_bit 63 ?S"
    by (simp add: sint_sbintrunc')
  also have "\<dots> = ?S"
    using lo hi by (simp only: signed_take_bit_int_eq_self_iff simp_thms)
  finally show ?thesis by (simp only: sum_scast)
qed

lemma int_to_double_exact: "int_to_double x = of_int (sint x)"
proof -
  have "\<bar>sint x\<bar> \<le> 2 ^ 53"
    using int32_range [of x] by simp
  then show ?thesis
    unfolding int_to_double_def by (rule round_double_of_int)
qed

lemma compute_stats_nonempty:
  assumes "v \<noteq> []"
  shows "compute_stats v =
           \<lparr>mean = double_div (long_long_to_double (sum_list (map scast v)))
                     (size_to_double (length v)),
            min' = of_int (Min (sint ` set v)),
            max' = of_int (Max (sint ` set v))\<rparr>"
proof -
  obtain S MN MX where loop: "stats_loop v (0, INT_MAX, INT_MIN) = (S, MN, MX)"
    by (metis prod_cases3)
  have "S = sum_list (map scast v)"
    using stats_loop_sum [of v 0 INT_MAX INT_MIN] by (simp add: loop)
  moreover have "sint MN = Min (sint ` set v)"
    using stats_loop_min [of v 0 INT_MAX INT_MIN] fold_min_from_INT_MAX [OF assms]
    by (simp add: loop)
  moreover have "sint MX = Max (sint ` set v)"
    using stats_loop_max [of v 0 INT_MAX INT_MIN] fold_max_from_INT_MIN [OF assms]
    by (simp add: loop)
  ultimately show ?thesis
    using assms by (simp add: compute_stats_def loop int_to_double_exact del: of_int_sint)
qed

lemma mean_replicate:
  "0 < n \<Longrightarrow> mean (compute_stats (replicate n x)) =
     double_div (long_long_to_double (of_nat n * scast x)) (size_to_double n)"
  by (simp add: compute_stats_nonempty sum_list_replicate)

lemma max_replicate: "0 < n \<Longrightarrow> max' (compute_stats (replicate n x)) = of_int (sint x)"
  by (simp add: compute_stats_nonempty)

lemma min_replicate: "0 < n \<Longrightarrow> min' (compute_stats (replicate n x)) = of_int (sint x)"
  by (simp add: compute_stats_nonempty)

lemma sum_list_ge: "\<forall>x \<in> set xs. a \<le> x \<Longrightarrow> a * int (length xs) \<le> sum_list xs"
proof (induction xs)
  case Nil
  show ?case by simp
next
  case (Cons x xs)
  then have "a \<le> x" "a * int (length xs) \<le> sum_list xs" by simp_all
  moreover have "a * int (length (x # xs)) = a + a * int (length xs)"
    by (simp add: ring_distribs)
  ultimately show ?case by simp
qed

lemma sum_list_le: "\<forall>x \<in> set xs. x \<le> a \<Longrightarrow> sum_list xs \<le> a * int (length xs)"
proof (induction xs)
  case Nil
  show ?case by simp
next
  case (Cons x xs)
  then have "x \<le> a" "sum_list xs \<le> a * int (length xs)" by simp_all
  moreover have "a * int (length (x # xs)) = a + a * int (length xs)"
    by (simp add: ring_distribs)
  ultimately show ?case by simp
qed

text \<open>Up to \<open>2 ^ 32\<close> elements the 64-bit sum is the exact sum.\<close>

lemma mean_exact_sum:
  assumes "v \<noteq> []" "length v \<le> 2 ^ 32"
  shows "mean (compute_stats v) =
           double_div (round_double (of_int (sum_list (map sint v))))
             (round_double (of_nat (length v)))"
  using assms
  by (simp add: compute_stats_nonempty long_long_to_double_def size_to_double_def
        sint_sum_exact)

text \<open>Up to \<open>2 ^ 22\<close> elements the sum and the count convert exactly.\<close>

lemma mean_single_rounding:
  assumes "v \<noteq> []" "length v \<le> 2 ^ 22"
  shows "mean (compute_stats v) =
           round_double (of_int (sum_list (map sint v)) / of_nat (length v))"
proof -
  let ?S = "sum_list (map sint v)"
  have "int (length v) \<le> int (2 ^ 22)" using assms(2) by (simp only: of_nat_le_iff)
  then have n: "int (length v) \<le> 4194304" by simp
  have len: "length v \<le> 2 ^ 32"
    using assms(2) by (rule order_trans) simp
  from sum_list_bounds [of v] n
  have "- 9007199254740992 \<le> ?S \<and> ?S \<le> 9007199254740992" by linarith
  then have "\<bar>?S\<bar> \<le> 2 ^ 53" by (simp add: abs_le_iff)
  then have s: "round_double (of_int ?S) = of_int ?S" by (rule round_double_of_int)
  have "\<bar>int (length v)\<bar> \<le> 2 ^ 53" using n by simp
  then have "round_double (of_int (int (length v))) = of_int (int (length v))"
    by (rule round_double_of_int)
  then have c: "round_double (of_nat (length v)) = of_nat (length v)" by simp
  show ?thesis
    by (simp only: mean_exact_sum [OF assms(1) len] s c double_div_def)
qed

lemma mean_between:
  assumes "v \<noteq> []" "length v \<le> 2 ^ 22"
  shows "min' (compute_stats v) \<le> mean (compute_stats v)"
    and "mean (compute_stats v) \<le> max' (compute_stats v)"
proof -
  let ?A = "sint ` set v"
  let ?S = "sum_list (map sint v)"
  let ?n = "length v"
  let ?q = "(of_int ?S :: rat) / of_nat ?n"
  have fin: "finite ?A" and ne: "?A \<noteq> {}" using assms(1) by simp_all
  have npos: "(0::rat) < of_nat ?n" using assms(1) by simp
  have "Min ?A * int ?n \<le> ?S"
    using sum_list_ge [of "map sint v" "Min ?A"] fin by simp
  then have "(of_int (Min ?A * int ?n) :: rat) \<le> of_int ?S" by (simp only: of_int_le_iff)
  then have "(of_int (Min ?A) :: rat) * of_nat ?n \<le> of_int ?S" by simp
  then have lo: "of_int (Min ?A) \<le> ?q" using npos by (simp add: pos_le_divide_eq)
  have "?S \<le> Max ?A * int ?n"
    using sum_list_le [of "map sint v" "Max ?A"] fin by simp
  then have "(of_int ?S :: rat) \<le> of_int (Max ?A * int ?n)" by (simp only: of_int_le_iff)
  then have "(of_int ?S :: rat) \<le> of_int (Max ?A) * of_nat ?n" by simp
  then have hi: "?q \<le> of_int (Max ?A)" using npos by (simp add: pos_divide_le_eq)
  obtain x :: int32 where "Min ?A = sint x" using Min_in [OF fin ne] by auto
  then have "- 2147483648 \<le> Min ?A" using int32_range(1) [of x] by simp
  then have "(of_int (- 2147483648) :: rat) \<le> of_int (Min ?A)" by (simp only: of_int_le_iff)
  then have lo': "- 2147483648 \<le> ?q" using lo by simp
  obtain y :: int32 where "Max ?A = sint y" using Max_in [OF fin ne] by auto
  then have "Max ?A \<le> 2147483647" using int32_range(2) [of y] by simp
  then have "(of_int (Max ?A) :: rat) \<le> of_int 2147483647" by (simp only: of_int_le_iff)
  then have hi': "?q \<le> 2147483647" using hi by simp
  from lo' hi' have b: "\<bar>?q\<bar> < 2 ^ 53" by (simp add: abs_less_iff)
  have m: "mean (compute_stats v) = round_double ?q"
    using assms by (rule mean_single_rounding)
  have mn: "min' (compute_stats v) = of_int (Min ?A)"
    and mx: "max' (compute_stats v) = of_int (Max ?A)"
    by (simp_all add: compute_stats_nonempty [OF assms(1)])
  show "min' (compute_stats v) \<le> mean (compute_stats v)"
    unfolding mn m by (rule round_double_ge [OF lo b])
  show "mean (compute_stats v) \<le> max' (compute_stats v)"
    unfolding mx m by (rule round_double_le [OF hi b])
qed

text \<open>
  Claim C2, as amended. \<open>compute_stats []\<close> has \<open>mean = 0\<close>, \<open>min = 0\<close>, \<open>max = 0\<close>. For
  every non-empty sequence \<open>v\<close> of at most \<open>2 ^ 32\<close> elements, the mean is the exact sum
  of the elements, converted to \<^verbatim>\<open>double\<close>, divided in floating point by the count,
  converted to \<^verbatim>\<open>double\<close>; the minimum is the smallest and the maximum the largest
  element. (Beyond \<open>2 ^ 32\<close> elements the 64-bit accumulator can overflow.)
\<close>

theorem compute_stats_spec:
  "compute_stats [] = \<lparr>mean = 0, min' = 0, max' = 0\<rparr>
   \<and> (v \<noteq> [] \<and> length v \<le> 2 ^ 32 \<longrightarrow>
        compute_stats v =
          \<lparr>mean = double_div (round_double (of_int (sum_list (map sint v))))
                    (round_double (of_nat (length v))),
           min' = of_int (Min (sint ` set v)),
           max' = of_int (Max (sint ` set v))\<rparr>)"
proof (intro conjI impI)
  show "compute_stats [] = \<lparr>mean = 0, min' = 0, max' = 0\<rparr>"
    by (simp add: compute_stats_def)
next
  assume h: "v \<noteq> [] \<and> length v \<le> 2 ^ 32"
  then have "mean (compute_stats v) =
           double_div (round_double (of_int (sum_list (map sint v))))
             (round_double (of_nat (length v)))"
    using mean_exact_sum by blast
  moreover have "min' (compute_stats v) = of_int (Min (sint ` set v))"
    and "max' (compute_stats v) = of_int (Max (sint ` set v))"
    using h by (simp_all add: compute_stats_nonempty)
  ultimately show "compute_stats v =
          \<lparr>mean = double_div (round_double (of_int (sum_list (map sint v))))
                    (round_double (of_nat (length v))),
           min' = of_int (Min (sint ` set v)),
           max' = of_int (Max (sint ` set v))\<rparr>"
    by simp
qed

theorem compute_stats_spec_witness:
  "[1, 2, 4 :: int32] \<noteq> [] \<and> length [1, 2, 4 :: int32] \<le> 2 ^ 32
   \<and> compute_stats [1, 2, 4] = \<lparr>mean = 5254199565265579 / 2251799813685248, min' = 1, max' = 4\<rparr>"
proof -
  have h: "[1, 2, 4 :: int32] \<noteq> [] \<and> length [1, 2, 4 :: int32] \<le> 2 ^ 32"
    by simp
  have m: "double_div (round_double 7) (round_double 3) = 5254199565265579 / 2251799813685248"
    by code_simp
  from compute_stats_spec [of "[1, 2, 4]"] h m show ?thesis
    by simp
qed

text \<open>
  Without the bound on the length the statement fails: with \<open>2 ^ 32 + 1\<close> elements
  equal to \<^verbatim>\<open>INT_MIN\<close> the exact sum is \<open>- 2 ^ 63 - 2 ^ 31\<close>, the accumulator holds
  \<open>2 ^ 63 - 2 ^ 31\<close>, and the mean computed is \<open>2147483647\<close>, not the quotient
  \<open>- 2147483648\<close> of the exact sum by the count.
\<close>

theorem compute_stats_counterexample:
  "mean (compute_stats (replicate 4294967297 INT_MIN)) \<noteq>
     double_div (round_double (of_int (sum_list (map sint (replicate 4294967297 INT_MIN)))))
       (round_double (of_nat (length (replicate 4294967297 INT_MIN))))"
proof -
  have w: "(of_nat 4294967297 * scast INT_MIN :: int64) = 9223372034707292160"
    by (simp add: INT_MIN_def)
  have l: "long_long_to_double (of_nat 4294967297 * scast INT_MIN) =
             round_double 9223372034707292160"
    unfolding w long_long_to_double_def by simp
  have c: "size_to_double 4294967297 = round_double 4294967297"
    by (simp add: size_to_double_def)
  have "mean (compute_stats (replicate 4294967297 INT_MIN)) =
          double_div (long_long_to_double (of_nat 4294967297 * scast INT_MIN))
            (size_to_double 4294967297)"
    by (rule mean_replicate) simp
  also have "\<dots> = double_div (round_double 9223372034707292160) (round_double 4294967297)"
    by (simp only: l c)
  also have "\<dots> = 2147483647"
    by code_simp
  finally have code: "mean (compute_stats (replicate 4294967297 INT_MIN)) = 2147483647" .
  have "sum_list (map sint (replicate 4294967297 INT_MIN)) = - 9223372039002259456"
    by (simp add: sum_list_replicate INT_MIN_def)
  then have "double_div (round_double (of_int (sum_list (map sint (replicate 4294967297 INT_MIN)))))
       (round_double (of_nat (length (replicate 4294967297 INT_MIN)))) =
       double_div (round_double (- 9223372039002259456)) (round_double 4294967297)"
    by simp
  also have "\<dots> = - 2147483648"
    by code_simp
  finally have claimed:
    "double_div (round_double (of_int (sum_list (map sint (replicate 4294967297 INT_MIN)))))
       (round_double (of_nat (length (replicate 4294967297 INT_MIN)))) = - 2147483648" .
  show ?thesis
    unfolding code claimed by simp
qed

text \<open>
  Claim C3, as amended. For every non-empty sequence \<open>v\<close> of at most \<open>2 ^ 22\<close> elements,
  \<open>min \<le> mean \<le> max\<close> holds for the fields of \<open>compute_stats v\<close>. (With more elements
  the sum need not be a \<^verbatim>\<open>double\<close>, and its rounding can push the mean past an end.)
\<close>

theorem mean_between_min_max:
  "v \<noteq> [] \<Longrightarrow> length v \<le> 2 ^ 22 \<Longrightarrow>
     min' (compute_stats v) \<le> mean (compute_stats v)
     \<and> mean (compute_stats v) \<le> max' (compute_stats v)"
  using mean_between by blast

theorem mean_between_min_max_witness:
  "[1, 2, 4 :: int32] \<noteq> [] \<and> length [1, 2, 4 :: int32] \<le> 2 ^ 22
   \<and> min' (compute_stats [1, 2, 4]) \<le> mean (compute_stats [1, 2, 4])
   \<and> mean (compute_stats [1, 2, 4]) \<le> max' (compute_stats [1, 2, 4])"
proof -
  have h: "[1, 2, 4 :: int32] \<noteq> []" "length [1, 2, 4 :: int32] \<le> 2 ^ 22"
    by simp_all
  from mean_between_min_max [OF h] h show ?thesis
    by simp
qed

text \<open>
  Without the bound on the length the statement fails: with \<open>2 ^ 22 + 1\<close> elements
  equal to \<^verbatim>\<open>INT_MAX\<close> the sum \<open>9007201398030335\<close> is above \<open>2 ^ 53\<close> and converts to
  \<open>9007201398030336\<close>; the quotient rounds to \<open>2147483647 + 1 / 2 ^ 22\<close>, above the
  maximum \<open>2147483647\<close>.
\<close>

theorem mean_between_min_max_counterexample:
  "\<not> (min' (compute_stats (replicate 4194305 INT_MAX))
         \<le> mean (compute_stats (replicate 4194305 INT_MAX))
       \<and> mean (compute_stats (replicate 4194305 INT_MAX))
         \<le> max' (compute_stats (replicate 4194305 INT_MAX)))"
proof -
  have w: "(of_nat 4194305 * scast INT_MAX :: int64) = 9007201398030335"
    by (simp add: INT_MAX_def)
  have l: "long_long_to_double (of_nat 4194305 * scast INT_MAX) =
             round_double 9007201398030335"
    unfolding w long_long_to_double_def by simp
  have c: "size_to_double 4194305 = round_double 4194305"
    by (simp add: size_to_double_def)
  have "mean (compute_stats (replicate 4194305 INT_MAX)) =
          double_div (long_long_to_double (of_nat 4194305 * scast INT_MAX))
            (size_to_double 4194305)"
    by (rule mean_replicate) simp
  also have "\<dots> = double_div (round_double 9007201398030335) (round_double 4194305)"
    by (simp only: l c)
  also have "\<dots> = 9007199250546689 / 4194304"
    by code_simp
  finally have m: "mean (compute_stats (replicate 4194305 INT_MAX)) = 9007199250546689 / 4194304" .
  have x: "max' (compute_stats (replicate 4194305 INT_MAX)) = 2147483647"
    by (simp add: max_replicate INT_MAX_def)
  show ?thesis
    unfolding m x by simp
qed

end
